theory Spec2Isabelle
  imports Complex_Main
begin

section \<open>The allele-frequency histogram of \<^verbatim>\<open>collect_data.py\<close>\<close>

text \<open>
  The function \<^verbatim>\<open>get_prob_dist\<close> of \<^verbatim>\<open>src/collect_data.py\<close> (lines 73--85) is a
  chain of numpy calls followed by the construction of a pandas data frame.  Each
  library call is embedded as a HOL function that follows the library's documented
  behaviour, including the exceptions it raises; \<^verbatim>\<open>get_prob_dist\<close> itself is
  translated line by line.

  Numbers of dtype \<^verbatim>\<open>float64\<close> are modelled as exact rationals: rounding, NaN and
  infinities are outside the model.  Integer counts are \<open>int\<close>.
\<close>

subsection \<open>Errors\<close>

datatype error = ValueError | IndexError

subsection \<open>Data\<close>

text \<open>
  The three arrays that \<^verbatim>\<open>get_prob_dist\<close> reads from the dataset.  The field
  \<open>variant_allele_frequency\<close> holds the column
  \<^verbatim>\<open>ds.variant_allele_frequency.values[:, 1]\<close>, the frequency of the alternate allele,
  one entry per variant; \<open>variant_n_het\<close> and \<open>variant_n_hom_alt\<close> hold
  \<^verbatim>\<open>ds.variant_n_het.values\<close> and \<^verbatim>\<open>ds.variant_n_hom_alt.values\<close>.
\<close>

record dataset =
  variant_allele_frequency :: "rat list"
  variant_n_het :: "int list"
  variant_n_hom_alt :: "int list"

text \<open>One row of the returned data frame (columns \<^verbatim>\<open>start\<close>, \<^verbatim>\<open>stop\<close>, \<^verbatim>\<open>prob_dist\<close>).\<close>

record histogram_row =
  start :: rat
  stop :: rat
  prob_dist :: int

subsection \<open>The numpy and pandas operations used\<close>

text \<open>
  \<^verbatim>\<open>np.linspace(start, stop, num)\<close> with \<^verbatim>\<open>endpoint=True\<close>: a negative \<^verbatim>\<open>num\<close> raises
  \<^verbatim>\<open>ValueError\<close>; otherwise \<^verbatim>\<open>arange(0, num)\<close> is scaled by the step, shifted by
  \<^verbatim>\<open>start\<close>, and the last entry is overwritten by \<^verbatim>\<open>stop\<close> when \<^verbatim>\<open>num > 1\<close>.
\<close>

definition linspace :: "rat \<Rightarrow> rat \<Rightarrow> int \<Rightarrow> error + rat list" where
  "linspace lo hi num =
     (if num < 0 then Inl ValueError
      else
        let dv = num - 1;
            delta = hi - lo;
            y0 = map rat_of_nat [0..<nat num];
            y1 = (if 0 < dv then map (\<lambda>v. v * (delta / rat_of_int dv)) y0
                  else map (\<lambda>v. v * delta) y0);
            y2 = map (\<lambda>v. v + lo) y1
        in Inr (if 1 < num then y2[nat num - 1 := hi] else y2))"

text \<open>
  The statement \<^verbatim>\<open>bins[-1] += d\<close>: index \<^verbatim>\<open>-1\<close> of an empty array raises
  \<^verbatim>\<open>IndexError\<close>.
\<close>

definition iadd_last :: "rat list \<Rightarrow> rat \<Rightarrow> error + rat list" where
  "iadd_last xs d =
     (if xs = [] then Inl IndexError
      else Inr (xs[length xs - 1 := xs ! (length xs - 1) + d]))"

text \<open>
  \<^verbatim>\<open>np.searchsorted(a, v, side)\<close> on an ascending array: the insertion point of
  \<open>v\<close>, after all entries \<open>\<le> v\<close> for \<^verbatim>\<open>side='right'\<close>, after all entries \<open>< v\<close> for
  \<^verbatim>\<open>side='left'\<close>.
\<close>

definition searchsorted_right :: "rat list \<Rightarrow> rat \<Rightarrow> nat" where
  "searchsorted_right a v = length (takeWhile (\<lambda>e. e \<le> v) a)"

definition searchsorted_left :: "rat list \<Rightarrow> rat \<Rightarrow> nat" where
  "searchsorted_left a v = length (takeWhile (\<lambda>e. e < v) a)"

text \<open>
  \<^verbatim>\<open>np.digitize(x, bins)\<close> with \<^verbatim>\<open>right=False\<close>: ascending bins (a constant array
  counts as ascending) are searched from the right, descending bins are reversed and
  searched from the left, and bins that are neither raise \<^verbatim>\<open>ValueError\<close>.
\<close>

definition digitize :: "rat list \<Rightarrow> rat list \<Rightarrow> error + nat list" where
  "digitize x bins =
     (if sorted bins then Inr (map (searchsorted_right bins) x)
      else if sorted (rev bins)
        then Inr (map (\<lambda>v. length bins - searchsorted_left (rev bins) v) x)
      else Inl ValueError)"

text \<open>
  \<^verbatim>\<open>np.bincount(x, weights, minlength)\<close>: the output has
  \<^verbatim>\<open>max(minlength, max(x) + 1)\<close> entries, and entry \<open>i\<close> is the sum of the weights at
  the positions where \<open>x\<close> is \<open>i\<close>.  A negative \<^verbatim>\<open>minlength\<close> and weights of another
  length than \<open>x\<close> raise \<^verbatim>\<open>ValueError\<close>.
\<close>

definition bincount_len :: "nat list \<Rightarrow> int \<Rightarrow> nat" where
  "bincount_len x minlength = max (nat minlength) (if x = [] then 0 else Max (set x) + 1)"

definition bincount :: "nat list \<Rightarrow> rat list \<Rightarrow> int \<Rightarrow> error + rat list" where
  "bincount x weights minlength =
     (if minlength < 0 then Inl ValueError
      else if length weights \<noteq> length x then Inl ValueError
      else Inr (foldl (\<lambda>out (i, w). out[i := out ! i + w])
                  (replicate (bincount_len x minlength) 0) (zip x weights)))"

text \<open>
  \<^verbatim>\<open>a + b\<close> on one-dimensional arrays: equal lengths add entry by entry, an array of
  length one is broadcast along the other, any other pair of lengths raises
  \<^verbatim>\<open>ValueError\<close>.
\<close>

definition add_arrays :: "rat list \<Rightarrow> rat list \<Rightarrow> error + rat list" where
  "add_arrays a b =
     (if length a = length b then Inr (map2 (+) a b)
      else if length a = 1 then Inr (map (\<lambda>v. a ! 0 + v) b)
      else if length b = 1 then Inr (map (\<lambda>v. v + b ! 0) a)
      else Inl ValueError)"

text \<open>\<^verbatim>\<open>.astype(int)\<close> on a float: truncation towards zero.\<close>

definition astype_int :: "rat \<Rightarrow> int" where
  "astype_int v = (if 0 \<le> v then \<lfloor>v\<rfloor> else \<lceil>v\<rceil>)"

text \<open>
  \<^verbatim>\<open>pd.DataFrame({...})\<close> from three arrays: columns of different lengths raise
  \<^verbatim>\<open>ValueError\<close>.
\<close>

definition DataFrame :: "rat list \<Rightarrow> rat list \<Rightarrow> int list \<Rightarrow> error + histogram_row list" where
  "DataFrame starts stops counts =
     (if length starts = length stops \<and> length stops = length counts
      then Inr (map (\<lambda>(s, e, c). \<lparr>start = s, stop = e, prob_dist = c\<rparr>)
                  (zip starts (zip stops counts)))
      else Inl ValueError)"

subsection \<open>\<^verbatim>\<open>get_prob_dist\<close>\<close>

definition get_prob_dist :: "dataset \<Rightarrow> int \<Rightarrow> error + histogram_row list" where
  "get_prob_dist ds num_bins =
     (case linspace 0 1 (num_bins + 1) of Inl e \<Rightarrow> Inl e | Inr bins0 \<Rightarrow>
      case iadd_last bins0 (1 / 100) of Inl e \<Rightarrow> Inl e | Inr bins \<Rightarrow>
      let af = variant_allele_frequency ds;
          pRA = map (\<lambda>p. 2 * p * (1 - p)) af;
          pAA = map (\<lambda>p. p * p) af;
          hets = variant_n_het ds;
          homs = variant_n_hom_alt ds
      in
      case digitize pRA bins of Inl e \<Rightarrow> Inl e | Inr ia \<Rightarrow>
      case bincount ia (map rat_of_int hets) (num_bins + 1) of Inl e \<Rightarrow> Inl e | Inr a \<Rightarrow>
      case digitize pAA bins of Inl e \<Rightarrow> Inl e | Inr ib \<Rightarrow>
      case bincount ib (map rat_of_int homs) (num_bins + 1) of Inl e \<Rightarrow> Inl e | Inr b \<Rightarrow>
      case add_arrays a b of Inl e \<Rightarrow> Inl e | Inr s \<Rightarrow>
      DataFrame (butlast bins) (tl bins) (tl (map astype_int s)))"

subsection \<open>\<^verbatim>\<open>get_prob_dist\<close> on a heap of arrays\<close>

text \<open>
  To state that \<^verbatim>\<open>get_prob_dist\<close> leaves its input alone, arrays are placed on a heap:
  a list of arrays, an address being an index.  A dataset is then three addresses.
  Arithmetic on an integer array and the \<^verbatim>\<open>weights\<close> argument of \<^verbatim>\<open>np.bincount\<close> read
  it as floats.
\<close>

datatype ndarray = Floats "rat list" | Ints "int list"

type_synonym heap = "ndarray list"

record dataset_ref =
  allele_frequency_at :: nat
  n_het_at :: nat
  n_hom_alt_at :: nat

fun as_floats :: "ndarray \<Rightarrow> rat list" where
  "as_floats (Floats xs) = xs"
| "as_floats (Ints ws) = map rat_of_int ws"

text \<open>
  The function with the heap passed through.  \<^verbatim>\<open>np.linspace\<close> creates the array
  \<^verbatim>\<open>bins\<close> at a new address, and \<^verbatim>\<open>bins[-1] += 0.01\<close> writes to that address; it is the
  only write of the function.  \<^verbatim>\<open>af\<close>, \<^verbatim>\<open>hets\<close> and \<^verbatim>\<open>homs\<close> are the input arrays
  themselves (a view and two aliases) and are only read.  The other arrays
  (\<^verbatim>\<open>pRA\<close>, \<^verbatim>\<open>pAA\<close>, the digitize and bincount results, \<^verbatim>\<open>count\<close>) are created by the
  function and never written afterwards, so they are kept as values.
\<close>

definition get_prob_dist_heap ::
  "heap \<Rightarrow> dataset_ref \<Rightarrow> int \<Rightarrow> (error + histogram_row list) \<times> heap" where
  "get_prob_dist_heap h ds num_bins =
     (case linspace 0 1 (num_bins + 1) of Inl e \<Rightarrow> (Inl e, h) | Inr bins0 \<Rightarrow>
      let bins_at = length h;
          h1 = h @ [Floats bins0]
      in
      case iadd_last (as_floats (h1 ! bins_at)) (1 / 100) of Inl e \<Rightarrow> (Inl e, h1) | Inr bins1 \<Rightarrow>
      let h2 = h1[bins_at := Floats bins1];
          bins = as_floats (h2 ! bins_at);
          af = as_floats (h2 ! allele_frequency_at ds);
          pRA = map (\<lambda>p. 2 * p * (1 - p)) af;
          pAA = map (\<lambda>p. p * p) af;
          hets = as_floats (h2 ! n_het_at ds);
          homs = as_floats (h2 ! n_hom_alt_at ds)
      in
      (case digitize pRA bins of Inl e \<Rightarrow> Inl e | Inr ia \<Rightarrow>
       case bincount ia hets (num_bins + 1) of Inl e \<Rightarrow> Inl e | Inr a \<Rightarrow>
       case digitize pAA bins of Inl e \<Rightarrow> Inl e | Inr ib \<Rightarrow>
       case bincount ib homs (num_bins + 1) of Inl e \<Rightarrow> Inl e | Inr b \<Rightarrow>
       case add_arrays a b of Inl e \<Rightarrow> Inl e | Inr s \<Rightarrow>
       DataFrame (butlast bins) (tl bins) (tl (map astype_int s)),
       h2))"

text \<open>The heap \<open>h\<close> holds the arrays of the dataset \<open>ds\<close> at the addresses \<open>r\<close>.\<close>

definition holds :: "heap \<Rightarrow> dataset_ref \<Rightarrow> dataset \<Rightarrow> bool" where
  "holds h r ds \<longleftrightarrow>
     allele_frequency_at r < length h \<and> n_het_at r < length h \<and> n_hom_alt_at r < length h \<and>
     h ! allele_frequency_at r = Floats (variant_allele_frequency ds) \<and>
     h ! n_het_at r = Ints (variant_n_het ds) \<and>
     h ! n_hom_alt_at r = Ints (variant_n_hom_alt ds)"

text \<open>A heap with the arrays of the scenario and an unrelated array.\<close>

definition scenario_heap :: heap where
  "scenario_heap = [Ints [10], Floats [7 / 8], Floats [1 / 2], Ints [5]]"

definition scenario_ref :: dataset_ref where
  "scenario_ref = \<lparr>allele_frequency_at = 2, n_het_at = 0, n_hom_alt_at = 3\<rparr>"

subsection \<open>Notions used to state the properties\<close>

text \<open>
  The bin edges that lines 74 and 75 compute for a positive number \<open>N\<close> of bins:
  \<open>0, 1/N, \<dots>, (N-1)/N\<close> and the widened upper edge \<open>1 + 0.01\<close>
  (lemmas \<open>linspace_unit\<close> and \<open>bins_edges\<close> below).
\<close>

definition edge :: "nat \<Rightarrow> nat \<Rightarrow> rat" where
  "edge N i = (if i < N then rat_of_nat i / rat_of_nat N else 101 / 100)"

definition edges :: "nat \<Rightarrow> rat list" where
  "edges N = map (edge N) [0..<Suc N]"

text \<open>The index \<^verbatim>\<open>np.digitize\<close> gives a value against these edges.\<close>

definition dig :: "nat \<Rightarrow> rat \<Rightarrow> nat" where
  "dig N v = searchsorted_right (edges N) v"

text \<open>The sum of the weights paired with index \<open>k\<close>: one entry of a weighted bincount.\<close>

definition wsum :: "nat \<Rightarrow> (nat \<times> 'a::comm_monoid_add) list \<Rightarrow> 'a" where
  "wsum k xs = (\<Sum>(i, w)\<leftarrow>xs. if i = k then w else 0)"



text \<open>
  The count of output row \<open>j\<close> written with digitize indices, and the whole row.
\<close>

definition cnt :: "nat \<Rightarrow> dataset \<Rightarrow> nat \<Rightarrow> int" where
  "cnt N ds j =
     wsum (Suc j) (zip (map (\<lambda>p. dig N (2 * p * (1 - p))) (variant_allele_frequency ds))
                       (variant_n_het ds))
   + wsum (Suc j) (zip (map (\<lambda>p. dig N (p * p)) (variant_allele_frequency ds))
                       (variant_n_hom_alt ds))"

definition row :: "nat \<Rightarrow> dataset \<Rightarrow> nat \<Rightarrow> histogram_row" where
  "row N ds j = \<lparr>start = edge N j, stop = edge N (Suc j), prob_dist = cnt N ds j\<rparr>"



text \<open>
  The three arrays of a dataset share the \<^verbatim>\<open>variants\<close> dimension; a valid input
  has frequencies in \<open>[0, 1]\<close> and non-negative counts.
\<close>

definition well_formed :: "dataset \<Rightarrow> bool" where
  "well_formed ds \<longleftrightarrow>
     length (variant_n_het ds) = length (variant_allele_frequency ds) \<and>
     length (variant_n_hom_alt ds) = length (variant_allele_frequency ds)"

definition valid_frequencies :: "dataset \<Rightarrow> bool" where
  "valid_frequencies ds \<longleftrightarrow>
     list_all (\<lambda>p. 0 \<le> p \<and> p \<le> 1) (variant_allele_frequency ds)"


text \<open>The dataset of the scenario: one variant with frequency \<open>0.5\<close>, 10 hets, 5 hom-alts.\<close>

definition scenario :: dataset where
  "scenario = \<lparr>variant_allele_frequency = [1 / 2], variant_n_het = [10],
                variant_n_hom_alt = [5]\<rparr>"




text \<open>The frequencies for which \<^verbatim>\<open>pAA\<close> stays below the widened upper edge \<open>1.01\<close>:
  exactly those that \<^verbatim>\<open>get_prob_dist\<close> processes without an error when \<open>num_bins\<close> is positive.\<close>

definition accepted_frequencies :: "dataset \<Rightarrow> bool" where
  "accepted_frequencies ds \<longleftrightarrow>
     list_all (\<lambda>p. p * p < 101 / 100) (variant_allele_frequency ds)"









section \<open>The bin edges\<close>

lemma linspace_unit:
  assumes "0 < N"
  shows "linspace 0 1 (int N + 1) = Inr (map (\<lambda>i. rat_of_nat i / rat_of_nat N) [0..<Suc N])"
proof -
  have n: "nat (int N + 1) = Suc N" by simp
  have "(map (\<lambda>v. v + 0) (map (\<lambda>v. v * ((1 - 0) / rat_of_int (int N + 1 - 1))) (map rat_of_nat [0..<Suc N])))
        [Suc N - 1 := 1] = map (\<lambda>i. rat_of_nat i / rat_of_nat N) [0..<Suc N]"
    using assms by (intro nth_equalityI) (auto simp: nth_list_update simp del: upt_Suc)
  then show ?thesis using assms unfolding linspace_def Let_def n by (simp del: upt_Suc)
qed

lemma bins_edges:
  assumes "0 < N"
  shows "iadd_last (map (\<lambda>i. rat_of_nat i / rat_of_nat N) [0..<Suc N]) (1 / 100) = Inr (edges N)"
proof -
  have "(map (\<lambda>i. rat_of_nat i / rat_of_nat N) [0..<Suc N])[N := 1 + 1 / 100] = edges N"
    using assms by (intro nth_equalityI) (auto simp: edges_def edge_def nth_list_update nth_append less_Suc_eq simp del: upt_Suc)
  then show ?thesis using assms by (simp add: iadd_last_def nth_append del: upt_Suc)
qed

lemma length_edges: "length (edges N) = Suc N"
  by (simp add: edges_def)

lemma nth_edges: "i \<le> N \<Longrightarrow> edges N ! i = edge N i"
  unfolding edges_def by (simp add: nth_append less_Suc_eq_le del: upt_Suc)

lemma edge_mono: "i \<le> j \<Longrightarrow> edge N i \<le> edge N j"
  by (auto simp: edge_def divide_right_mono pos_divide_le_eq)

lemma sorted_edges: "sorted (edges N)"
  by (simp add: sorted_iff_nth_mono length_edges nth_edges edge_mono)

section \<open>Digitising and counting\<close>

lemma searchsorted_right_le: "searchsorted_right a v \<le> length a"
  by (simp add: searchsorted_right_def length_takeWhile_le)

lemma searchsorted_right_below:
  "i < searchsorted_right a v \<Longrightarrow> a ! i \<le> v"
  unfolding searchsorted_right_def
  by (metis nth_mem set_takeWhileD takeWhile_nth)

lemma searchsorted_right_above:
  "searchsorted_right a v < length a \<Longrightarrow> v < a ! searchsorted_right a v"
  unfolding searchsorted_right_def
  using nth_length_takeWhile[of "\<lambda>e. e \<le> v" a] by simp

lemma searchsorted_right_eqI:
  assumes "k \<le> length a" "\<And>i. i < k \<Longrightarrow> a ! i \<le> v" "k < length a \<Longrightarrow> v < a ! k"
  shows "searchsorted_right a v = k"
proof -
  have "takeWhile (\<lambda>e. e \<le> v) a = take k a"
    using assms by (intro takeWhile_eq_take_P_nth) auto
  then show ?thesis using assms(1) by (simp add: searchsorted_right_def)
qed

lemma dig_le: "dig N v \<le> Suc N"
  unfolding dig_def using searchsorted_right_le[of "edges N" v] by (simp add: length_edges)


lemma dig_neg: "v < 0 \<Longrightarrow> dig N v = 0"
  unfolding dig_def
  by (rule searchsorted_right_eqI) (auto simp: length_edges nth_edges edge_def)


lemma dig_range:
  assumes "0 < N" "0 \<le> v" "v < 101 / 100"
  shows "0 < dig N v \<and> dig N v \<le> N"
proof -
  have "edges N ! 0 \<le> v" using assms by (simp add: nth_edges edge_def)
  have a: "0 < dig N v"
  proof (rule ccontr)
    assume "\<not> 0 < dig N v"
    then have "dig N v = 0" by simp
    then have "v < edges N ! 0"
      using searchsorted_right_above[of "edges N" v] by (simp add: dig_def length_edges)
    then show False using assms by (simp add: nth_edges edge_def)
  qed
  have b: "dig N v \<noteq> Suc N"
  proof
    assume "dig N v = Suc N"
    then have "edges N ! N \<le> v"
      using searchsorted_right_below[of N "edges N" v] by (simp add: dig_def)
    then show False using assms by (simp add: nth_edges edge_def)
  qed
  show ?thesis using a b dig_le[of N v] by simp
qed

lemma foldl_bincount_length:
  "length (foldl (\<lambda>out (i, w). out[i := out ! i + w]) out xs) = length out"
  by (induction xs arbitrary: out) (auto simp: case_prod_beta)

lemma foldl_bincount_nth:
  fixes out :: "rat list"
  shows "k < length out \<Longrightarrow>
   foldl (\<lambda>out (i, w). out[i := out ! i + w]) out xs ! k = out ! k + wsum k xs"
proof (induction xs arbitrary: out)
  case Nil
  then show ?case by (simp add: wsum_def)
next
  case (Cons x xs)
  obtain i w where x: "x = (i, w)" by (cases x)
  have "foldl (\<lambda>out (i, w). out[i := out ! i + w]) (out[i := out ! i + w]) xs ! k
        = out[i := out ! i + w] ! k + wsum k xs"
    using Cons.prems by (intro Cons.IH) simp
  then show ?case using Cons.prems x by (auto simp: wsum_def nth_list_update)
qed

lemma bincount_eq:
  assumes "0 \<le> m" "length ws = length x"
  shows "bincount x ws m = Inr (map (\<lambda>k. wsum k (zip x ws)) [0..<bincount_len x m])"
proof -
  have "foldl (\<lambda>out (i, w). out[i := out ! i + w]) (replicate (bincount_len x m) 0) (zip x ws)
        = map (\<lambda>k. wsum k (zip x ws)) [0..<bincount_len x m]"
    by (intro nth_equalityI) (simp_all add: foldl_bincount_length foldl_bincount_nth)
  then show ?thesis using assms by (simp add: bincount_def)
qed

lemma bincount_len_small:
  assumes "\<And>i. i \<in> set x \<Longrightarrow> i < nat m"
  shows "bincount_len x m = nat m"
proof (cases "x = []")
  case True
  then show ?thesis by (simp add: bincount_len_def)
next
  case False
  then have "Max (set x) \<in> set x" by (intro Max_in) simp_all
  then have "Max (set x) < nat m" using assms by blast
  then have "max (nat m) (Max (set x) + 1) = nat m" by linarith
  then show ?thesis using False unfolding bincount_len_def by simp
qed


section \<open>The rows of the result\<close>

lemma wsum_of_int: "wsum k (zip x (map rat_of_int ws)) = rat_of_int (wsum k (zip x ws))"
proof (induction x arbitrary: ws)
  case Nil
  then show ?case by (simp add: wsum_def wsum_def)
next
  case (Cons i x)
  show ?case
  proof (cases ws)
    case Nil
    then show ?thesis by (simp add: wsum_def wsum_def)
  next
    case (Cons w ws')
    have "wsum k (zip x (map rat_of_int ws')) = rat_of_int (wsum k (zip x ws'))"
      by (rule Cons.IH)
    then show ?thesis using Cons by (simp add: wsum_def wsum_def)
  qed
qed

lemma astype_int_of_int: "astype_int (rat_of_int a + rat_of_int b) = a + b"
proof -
  have "rat_of_int a + rat_of_int b = rat_of_int (a + b)" by simp
  then show ?thesis unfolding astype_int_def by (simp only: floor_of_int ceiling_of_int if_cancel)
qed

lemma pRA_le_half: "2 * p * (1 - p) \<le> (1 / 2 :: rat)"
proof -
  have sq: "0 \<le> (p - 1 / 2) * (p - 1 / 2)" by (rule zero_le_square)
  have "1 / 2 - 2 * p * (1 - p) = 2 * ((p - 1 / 2) * (p - 1 / 2))" by (simp add: algebra_simps)
  then show ?thesis using sq by linarith
qed

lemma dig_pRA_le: "0 < N \<Longrightarrow> dig N (2 * p * (1 - p)) \<le> N"
proof -
  assume N: "0 < N"
  have lt: "2 * p * (1 - p) < (101 / 100 :: rat)"
    using pRA_le_half[of p] by linarith
  show ?thesis
  proof (cases "0 \<le> 2 * p * (1 - p)")
    case True
    then show ?thesis using dig_range[OF N True lt] by simp
  next
    case False
    then show ?thesis using dig_neg[of "2 * p * (1 - p)" N] by simp
  qed
qed

lemma dig_pAA_le: "0 < N \<Longrightarrow> p * p < 101 / 100 \<Longrightarrow> dig N (p * p) \<le> N"
  using dig_range[of N "p * p"] by simp

lemma get_bins:
  assumes "0 < N"
  shows "(case linspace 0 1 (int N + 1) of Inl e \<Rightarrow> Inl e | Inr bins0 \<Rightarrow>
          case iadd_last bins0 (1 / 100) of Inl e \<Rightarrow> Inl e | Inr bins \<Rightarrow> f bins) = f (edges N)"
  using assms by (simp only: linspace_unit bins_edges sum.case)

lemma digitize_edges: "digitize x (edges N) = Inr (map (dig N) x)"
  by (simp add: digitize_def sorted_edges dig_def)

lemma butlast_edges: "butlast (edges N) = map (edge N) [0..<N]"
  by (simp add: edges_def)

lemma tl_edges: "tl (edges N) = map (\<lambda>j. edge N (Suc j)) [0..<N]"
  unfolding edges_def by (simp add: map_Suc_upt[symmetric] upt_conv_Cons del: upt_Suc)

lemma get_prob_dist_ok:
  assumes N: "0 < N"
    and lh: "length (variant_n_het ds) = length (variant_allele_frequency ds)"
    and lm: "length (variant_n_hom_alt ds) = length (variant_allele_frequency ds)"
    and af: "\<And>p. p \<in> set (variant_allele_frequency ds) \<Longrightarrow> p * p < 101 / 100"
  shows "get_prob_dist ds (int N) =
         Inr (map (\<lambda>j. \<lparr>start = edge N j, stop = edge N (Suc j), prob_dist = cnt N ds j\<rparr>) [0..<N])"
proof -
  let ?af = "variant_allele_frequency ds"
  let ?ia = "map (dig N) (map (\<lambda>p. 2 * p * (1 - p)) ?af)"
  let ?ib = "map (dig N) (map (\<lambda>p. p * p) ?af)"
  let ?a = "map (\<lambda>k. wsum k (zip ?ia (map rat_of_int (variant_n_het ds)))) [0..<Suc N]"
  let ?b = "map (\<lambda>k. wsum k (zip ?ib (map rat_of_int (variant_n_hom_alt ds)))) [0..<Suc N]"
  have na: "nat (int N + 1) = Suc N" by simp
  have "\<And>i. i \<in> set ?ia \<Longrightarrow> i < nat (int N + 1)"
    unfolding na using dig_pRA_le[OF N] by (auto simp: less_Suc_eq_le)
  then have "bincount_len ?ia (int N + 1) = nat (int N + 1)" by (rule bincount_len_small)
  then have la: "bincount_len ?ia (int N + 1) = Suc N" by (simp only: na)
  have "\<And>i. i \<in> set ?ib \<Longrightarrow> i < nat (int N + 1)"
    unfolding na using dig_pAA_le[OF N] af by (auto simp: less_Suc_eq_le)
  then have "bincount_len ?ib (int N + 1) = nat (int N + 1)" by (rule bincount_len_small)
  then have lb: "bincount_len ?ib (int N + 1) = Suc N" by (simp only: na)
  have a: "bincount ?ia (map rat_of_int (variant_n_het ds)) (int N + 1) = Inr ?a"
    using bincount_eq[of "int N + 1" "map rat_of_int (variant_n_het ds)" ?ia] lh
    by (simp only: la length_map)
  have b: "bincount ?ib (map rat_of_int (variant_n_hom_alt ds)) (int N + 1) = Inr ?b"
    using bincount_eq[of "int N + 1" "map rat_of_int (variant_n_hom_alt ds)" ?ib] lm
    by (simp only: lb length_map)
  have s: "add_arrays ?a ?b = Inr (map2 (+) ?a ?b)"
    unfolding add_arrays_def by (simp del: upt_Suc)
  have cnts: "tl (map astype_int (map2 (+) ?a ?b)) = map (cnt N ds) [0..<N]"
  proof (intro nth_equalityI)
    show "length (tl (map astype_int (map2 (+) ?a ?b))) = length (map (cnt N ds) [0..<N])"
      by (simp del: upt_Suc)
  next
    fix i assume "i < length (tl (map astype_int (map2 (+) ?a ?b)))"
    then have i: "i < N" by (simp del: upt_Suc)
    then have "tl (map astype_int (map2 (+) ?a ?b)) ! i = astype_int (?a ! Suc i + ?b ! Suc i)"
      by (simp add: nth_tl del: upt_Suc)
    also have "\<dots> = cnt N ds i"
      using i by (simp add: wsum_of_int astype_int_of_int cnt_def comp_def del: upt_Suc)
    finally show "tl (map astype_int (map2 (+) ?a ?b)) ! i = map (cnt N ds) [0..<N] ! i"
      using i by simp
  qed
  have df: "DataFrame (butlast (edges N)) (tl (edges N)) (map (cnt N ds) [0..<N]) =
        Inr (map (\<lambda>j. \<lparr>start = edge N j, stop = edge N (Suc j), prob_dist = cnt N ds j\<rparr>) [0..<N])"
    unfolding DataFrame_def butlast_edges tl_edges
    by (simp add: zip_map_map zip_same_conv_map del: upt_Suc) 
  show ?thesis
    unfolding get_prob_dist_def get_bins[OF N] Let_def digitize_edges
    by (simp only: a b s cnts df sum.case)
qed



lemma valid_sq: "0 \<le> p \<Longrightarrow> p \<le> 1 \<Longrightarrow> p * p < (101 / 100 :: rat)"
proof -
  assume a: "0 \<le> p" "p \<le> 1"
  then have "p * p \<le> 1 * 1" by (intro mult_mono) simp_all
  then show ?thesis by simp
qed

lemma get_prob_dist_valid:
  assumes "0 < num_bins" "well_formed ds" "valid_frequencies ds"
  shows "get_prob_dist ds num_bins = Inr (map (row (nat num_bins) ds) [0..<nat num_bins])"
proof -
  have n: "int (nat num_bins) = num_bins" "0 < nat num_bins" using assms(1) by simp_all
  have "\<And>p. p \<in> set (variant_allele_frequency ds) \<Longrightarrow> p * p < 101 / 100"
    using assms(3) valid_sq unfolding valid_frequencies_def list_all_iff by blast
  then show ?thesis
    using get_prob_dist_ok[of "nat num_bins" ds] assms(2) n
    by (simp add: well_formed_def row_def[abs_def])
qed

lemma start_row: "start (row N ds j) = edge N j"
  and stop_row: "stop (row N ds j) = edge N (Suc j)"
  and prob_dist_row: "prob_dist (row N ds j) = cnt N ds j"
  by (simp_all add: row_def)

lemma edge_strict: "i < j \<Longrightarrow> i < N \<Longrightarrow> edge N i < edge N j"
  by (auto simp: edge_def divide_strict_right_mono pos_divide_less_eq)


lemma valid_accepted: "valid_frequencies ds \<Longrightarrow> accepted_frequencies ds"
  unfolding valid_frequencies_def accepted_frequencies_def list_all_iff using valid_sq by blast



section \<open>Coverage\<close>

text \<open>
  C3: for every valid input and every positive \<open>num_bins = N\<close> the result has exactly
  \<open>N\<close> rows in increasing order of \<open>start\<close>; the first row starts at \<open>0\<close>, every
  row stops where the next one starts, and the last row stops at \<open>1 + 0.01\<close>, which is
  at least \<open>1\<close>.
\<close>

theorem coverage:
  assumes "0 < num_bins" "well_formed ds" "valid_frequencies ds"
  shows "\<exists>rows. get_prob_dist ds num_bins = Inr rows
           \<and> int (length rows) = num_bins
           \<and> start (rows ! 0) = 0
           \<and> (\<forall>i. Suc i < length rows \<longrightarrow> stop (rows ! i) = start (rows ! Suc i))
           \<and> stop (rows ! (length rows - 1)) = 1 + 1 / 100
           \<and> 1 \<le> stop (rows ! (length rows - 1))
           \<and> sorted_wrt (\<lambda>r s. start r < start s) rows"
proof -
  let ?N = "nat num_bins"
  let ?rows = "map (row ?N ds) [0..<?N]"
  have N: "0 < ?N" using assms(1) by simp
  have "sorted_wrt (\<lambda>r s. start r < start s) ?rows"
    by (simp add: sorted_wrt_iff_nth_less start_row edge_strict)
  moreover have "start (?rows ! 0) = 0" using N by (simp add: start_row edge_def)
  moreover have "\<forall>i. Suc i < length ?rows \<longrightarrow> stop (?rows ! i) = start (?rows ! Suc i)"
    by (simp add: start_row stop_row)
  moreover have "stop (?rows ! (length ?rows - 1)) = 1 + 1 / 100"
    using N by (simp add: stop_row edge_def)
  moreover have "int (length ?rows) = num_bins" using assms(1) by simp
  ultimately show ?thesis
    using get_prob_dist_valid[OF assms] by (intro exI[of _ ?rows]) simp
qed

theorem coverage_witness:
  "0 < (10 :: int) \<and> well_formed scenario \<and> valid_frequencies scenario \<and>
   (\<exists>rows. get_prob_dist scenario 10 = Inr rows
           \<and> int (length rows) = 10
           \<and> start (rows ! 0) = 0
           \<and> (\<forall>i. Suc i < length rows \<longrightarrow> stop (rows ! i) = start (rows ! Suc i))
           \<and> stop (rows ! (length rows - 1)) = 1 + 1 / 100
           \<and> 1 \<le> stop (rows ! (length rows - 1))
           \<and> sorted_wrt (\<lambda>r s. start r < start s) rows)"
proof -
  have h1: "0 < (10 :: int)" by simp
  have h2: "well_formed scenario" by (simp add: well_formed_def scenario_def)
  have h3: "valid_frequencies scenario" by (simp add: valid_frequencies_def scenario_def)
  show ?thesis using h1 h2 h3 coverage[OF h1 h2 h3] by blast
qed

section \<open>The scenario\<close>

text \<open>
  C5: for the single record with allele frequency \<open>0.5\<close>, 10 hets and 5 hom-alts and
  \<open>num_bins = 10\<close>, the result has count 10 in the row of index 5 (the bin from \<open>0.5\<close>
  to \<open>0.6\<close>), count 5 in the row of index 2 (the bin from \<open>0.2\<close> to \<open>0.3\<close>) and count 0
  in every other row.
\<close>

theorem scenario_result:
  "get_prob_dist scenario 10 =
     Inr [\<lparr>start = 0, stop = 1 / 10, prob_dist = 0\<rparr>,
          \<lparr>start = 1 / 10, stop = 2 / 10, prob_dist = 0\<rparr>,
          \<lparr>start = 2 / 10, stop = 3 / 10, prob_dist = 5\<rparr>,
          \<lparr>start = 3 / 10, stop = 4 / 10, prob_dist = 0\<rparr>,
          \<lparr>start = 4 / 10, stop = 5 / 10, prob_dist = 0\<rparr>,
          \<lparr>start = 5 / 10, stop = 6 / 10, prob_dist = 10\<rparr>,
          \<lparr>start = 6 / 10, stop = 7 / 10, prob_dist = 0\<rparr>,
          \<lparr>start = 7 / 10, stop = 8 / 10, prob_dist = 0\<rparr>,
          \<lparr>start = 8 / 10, stop = 9 / 10, prob_dist = 0\<rparr>,
          \<lparr>start = 9 / 10, stop = 101 / 100, prob_dist = 0\<rparr>]"
  by code_simp

section \<open>Conservation\<close>










section \<open>Non-negative counts\<close>





section \<open>Assignment to bins\<close>




section \<open>Frequencies at the ends of the unit interval\<close>

lemma wsum_append: "wsum k (xs @ ys) = wsum k xs + wsum k ys"
  by (simp add: wsum_def)











section \<open>Frequencies outside the unit interval\<close>




section \<open>Errors\<close>













section \<open>Purity\<close>

lemma get_prob_dist_heap_result:
  assumes "holds h r ds"
  shows "fst (get_prob_dist_heap h r num_bins) = get_prob_dist ds num_bins"
  using assms unfolding get_prob_dist_heap_def get_prob_dist_def holds_def Let_def
  by (auto split: sum.splits simp: nth_append nth_list_update)

lemma get_prob_dist_heap_frame:
  "take (length h) (snd (get_prob_dist_heap h r num_bins)) = h"
  unfolding get_prob_dist_heap_def Let_def
  by (auto split: sum.splits)

lemma holds_extend:
  assumes "holds h r ds" "take (length h) h' = h"
  shows "holds h' r ds"
proof -
  have n: "\<And>i. i < length h \<Longrightarrow> h' ! i = h ! i \<and> i < length h'"
    using assms(2) by (metis length_take min_less_iff_conj nth_take)
  show ?thesis using assms(1) n unfolding holds_def by auto
qed

text \<open>
  C9: \<^verbatim>\<open>get_prob_dist\<close> is a function of the contents of its input arrays and of
  \<open>num_bins\<close> alone: on any two heaps that hold the same dataset (at any addresses) it
  gives the same result, namely that of the heap-free function above.  It changes no
  array that existed before the call, the input arrays included; and calling it again
  on the heap the first call left gives the same result again.
\<close>

theorem purity:
  assumes "holds h r ds" "holds h' r' ds"
  shows "fst (get_prob_dist_heap h r num_bins) = get_prob_dist ds num_bins
       \<and> fst (get_prob_dist_heap h' r' num_bins) = fst (get_prob_dist_heap h r num_bins)
       \<and> take (length h) (snd (get_prob_dist_heap h r num_bins)) = h
       \<and> fst (get_prob_dist_heap (snd (get_prob_dist_heap h r num_bins)) r num_bins)
           = fst (get_prob_dist_heap h r num_bins)"
  using get_prob_dist_heap_result[OF assms(1)] get_prob_dist_heap_result[OF assms(2)]
    get_prob_dist_heap_result[OF holds_extend[OF assms(1) get_prob_dist_heap_frame]]
    get_prob_dist_heap_frame
  by simp

theorem purity_witness:
  "holds scenario_heap scenario_ref scenario
   \<and> holds (Floats [] # scenario_heap) \<lparr>allele_frequency_at = 3, n_het_at = 1, n_hom_alt_at = 4\<rparr> scenario
   \<and> fst (get_prob_dist_heap scenario_heap scenario_ref 10) = get_prob_dist scenario 10
   \<and> fst (get_prob_dist_heap (Floats [] # scenario_heap)
            \<lparr>allele_frequency_at = 3, n_het_at = 1, n_hom_alt_at = 4\<rparr> 10)
       = fst (get_prob_dist_heap scenario_heap scenario_ref 10)
   \<and> take (length scenario_heap) (snd (get_prob_dist_heap scenario_heap scenario_ref 10))
       = scenario_heap
   \<and> fst (get_prob_dist_heap (snd (get_prob_dist_heap scenario_heap scenario_ref 10))
            scenario_ref 10)
       = fst (get_prob_dist_heap scenario_heap scenario_ref 10)"
proof -
  have h1: "holds scenario_heap scenario_ref scenario"
    by (simp add: holds_def scenario_heap_def scenario_ref_def scenario_def)
  have h2: "holds (Floats [] # scenario_heap)
              \<lparr>allele_frequency_at = 3, n_het_at = 1, n_hom_alt_at = 4\<rparr> scenario"
    by (simp add: holds_def scenario_heap_def scenario_def)
  show ?thesis using h1 h2 purity[OF h1 h2, of 10] by simp
qed

end
